theory Spec2Isabelle
  imports Main "HOL-Library.AList" "HOL-Library.Char_ord" "HOL-Library.List_Lexorder"
    "HOL-Library.Sublist"
    "HOL-Library.Multiset"
begin

section \<open>Data model\<close>

text \<open>
  \<^verbatim>\<open>interface LogItem\<close> of the sidebar and the page: one persisted question/answer exchange.
  \<^verbatim>\<open>sessionId?: string | null\<close> is \<open>string option\<close>; \<open>None\<close> stands for both
  \<^verbatim>\<open>null\<close> and a missing field, which the code and the store's queries do not tell apart.
  \<open>createdAt\<close> is the timestamp string as stored. Strings are compared as JavaScript and
  the store compare them: lexicographically, code unit by code unit (the order of
  \<open>char list\<close>).
\<close>

record LogItem =
  sessionId :: "string option"
  question :: string
  answer :: string
  model :: string
  createdAt :: string

text \<open>A JSON value, as a request body carries it. A missing field is \<open>None\<close> of \<open>json option\<close>.\<close>

datatype json =
  JNull
  | JBool bool
  | JNum int
  | JStr string
  | JArr "json list"
  | JObj "(string \<times> json) list"

section \<open>The deletion endpoint: \<^verbatim>\<open>app/api/logs/delete/route.ts\<close>\<close>

text \<open>
  The collection is the list of its documents. A query of the database driver is one of the
  two filters the route builds: \<^verbatim>\<open>{}\<close> and \<^verbatim>\<open>{ sessionId: { $in: [...] } }\<close>. The driver is
  not code of the repository; \<open>matches\<close> follows the store's documented query semantics:
  \<^verbatim>\<open>$in\<close> selects a document whose field equals an element of the array, and a
  \<^verbatim>\<open>null\<close> element selects the documents whose field is \<^verbatim>\<open>null\<close> or missing.
\<close>

datatype query = MatchAll | SessionIdIn "json list"

fun matches :: "query \<Rightarrow> LogItem \<Rightarrow> bool" where
  "matches MatchAll d = True"
| "matches (SessionIdIn vs) d =
     (case sessionId d of None \<Rightarrow> JNull \<in> set vs | Some s \<Rightarrow> JStr s \<in> set vs)"

text \<open>\<^verbatim>\<open>collection.deleteMany(q)\<close>: the documents left, and \<^verbatim>\<open>deletedCount\<close>.\<close>

definition deleteMany :: "query \<Rightarrow> LogItem list \<Rightarrow> LogItem list \<times> nat" where
  "deleteMany q docs = (filter (\<lambda>d. \<not> matches q d) docs, length (filter (matches q) docs))"

fun isArray :: "json option \<Rightarrow> bool" where
  "isArray (Some (JArr vs)) = True"
| "isArray _ = False"

fun elements :: "json option \<Rightarrow> json list" where
  "elements (Some (JArr vs)) = vs"
| "elements _ = []"

text \<open>
  The branch of lines 26 to 34:
  \<^verbatim>\<open>if (Array.isArray(sessionIds) && sessionIds.length > 0) deleteMany({sessionId: {$in: sessionIds}})
  else deleteMany({})\<close>.
\<close>

definition delete_query :: "json option \<Rightarrow> query" where
  "delete_query sessionIds =
     (if isArray sessionIds \<and> length (elements sessionIds) > 0
      then SessionIdIn (elements sessionIds) else MatchAll)"

text \<open>
  What the route finds when it resolves \<^verbatim>\<open>mongoUri\<close> and connects: no URI (status 400), a
  failing connection or call (the outer \<^verbatim>\<open>catch\<close>, status 500), or a working connection.
\<close>

datatype connection = NotConfigured | Unreachable | Connected

datatype 'a http = Status400 | Status500 | Status200 'a

definition delete_POST :: "connection \<Rightarrow> json option \<Rightarrow> LogItem list \<Rightarrow> nat http \<times> LogItem list" where
  "delete_POST conn sessionIds docs =
     (case conn of
        NotConfigured \<Rightarrow> (Status400, docs)
      | Unreachable \<Rightarrow> (Status500, docs)
      | Connected \<Rightarrow>
          (let (docs', deleted) = deleteMany (delete_query sessionIds) docs
           in (Status200 deleted, docs')))"

text \<open>
  The body \<^verbatim>\<open>callDelete\<close> sends (Sidebar, lines 189 to 192):
  \<^verbatim>\<open>...(sessionIds !== null ? { sessionIds } : {})\<close>. The target \<open>None\<close> is \<^verbatim>\<open>null\<close>, "all".
\<close>

definition delete_body :: "string list option \<Rightarrow> json option" where
  "delete_body target = (case target of None \<Rightarrow> None | Some ids \<Rightarrow> Some (JArr (map JStr ids)))"

definition legacy_doc :: LogItem where
  "legacy_doc = \<lparr>sessionId = None, question = ''legacy'', answer = ''old'', model = ''m'',
     createdAt = ''2024-01-01T00:00:00.000Z''\<rparr>"

definition doc_A1 :: LogItem where
  "doc_A1 = \<lparr>sessionId = Some ''A'', question = ''hi'', answer = ''hello'', model = ''m1'',
     createdAt = ''2024-01-02T00:00:00.000Z''\<rparr>"

definition doc_A2 :: LogItem where
  "doc_A2 = \<lparr>sessionId = Some ''A'', question = ''bye'', answer = ''later'', model = ''m2'',
     createdAt = ''2024-01-03T00:00:00.000Z''\<rparr>"

definition doc_B1 :: LogItem where
  "doc_B1 = \<lparr>sessionId = Some ''B'', question = ''why'', answer = ''because'', model = ''m1'',
     createdAt = ''2024-01-04T00:00:00.000Z''\<rparr>"

section \<open>The grouping of the sidebar: \<^verbatim>\<open>conversations\<close> (Sidebar, lines 214 to 287)\<close>

text \<open>The value type of the \<^verbatim>\<open>grouped\<close> map, and a row of \<^verbatim>\<open>result\<close>.\<close>

record group =
  logs :: "LogItem list"
  firstQuestion :: string
  latestDate :: string

record conversation =
  key :: string
  convSessionId :: "string option"
  title :: string
  date :: string
  convModel :: string
  msgCount :: nat
  allLogs :: "LogItem list"

text \<open>
  One call of the \<^verbatim>\<open>forEach\<close> callback of lines 221 to 239. The \<^verbatim>\<open>Map\<close> is an association
  list in insertion order: \<^verbatim>\<open>grouped.get\<close> is \<open>map_of\<close>, and both \<^verbatim>\<open>grouped.set\<close> on a new
  key and the in-place mutation of \<^verbatim>\<open>existing\<close> are \<open>AList.update\<close>, which replaces the entry
  where it stands or appends a new one. \<^verbatim>\<open>if (log.sessionId)\<close> is JavaScript truthiness:
  \<^verbatim>\<open>null\<close>, a missing field and the empty string all take the \<^verbatim>\<open>else\<close> branch.
\<close>

definition group_step ::
  "nat \<times> LogItem \<Rightarrow> (string \<times> group) list \<times> (LogItem \<times> nat) list
     \<Rightarrow> (string \<times> group) list \<times> (LogItem \<times> nat) list" where
  "group_step il acc =
     (case il of (index, log) \<Rightarrow> case acc of (grouped, ungrouped) \<Rightarrow>
       (case sessionId log of
          Some sid \<Rightarrow>
            if sid \<noteq> [] then
              (case map_of grouped sid of
                 Some existing \<Rightarrow>
                   (AList.update sid
                      (existing\<lparr>logs := logs existing @ [log],
                         latestDate :=
                           (if latestDate existing = [] \<or> createdAt log > latestDate existing
                            then createdAt log else latestDate existing)\<rparr>)
                      grouped,
                    ungrouped)
               | None \<Rightarrow>
                   (AList.update sid
                      \<lparr>logs = [log], firstQuestion = question log, latestDate = createdAt log\<rparr>
                      grouped,
                    ungrouped))
            else (grouped, ungrouped @ [(log, index)])
        | None \<Rightarrow> (grouped, ungrouped @ [(log, index)])))"

text \<open>
  \<^verbatim>\<open>Array.prototype.sort(compareFn)\<close>. ECMAScript requires a stable sort and reads a
  \<^verbatim>\<open>NaN\<close> from the comparator as \<open>+0\<close>; for a consistent comparator every stable sort gives
  the list that this insertion sort gives. (For an inconsistent comparator the order is
  left to the engine.)
\<close>

fun js_insert :: "('a \<Rightarrow> 'a \<Rightarrow> int) \<Rightarrow> 'a \<Rightarrow> 'a list \<Rightarrow> 'a list" where
  "js_insert cmp x [] = [x]"
| "js_insert cmp x (y # ys) = (if cmp x y \<le> 0 then x # y # ys else y # js_insert cmp x ys)"

definition js_sort :: "('a \<Rightarrow> 'a \<Rightarrow> int) \<Rightarrow> 'a list \<Rightarrow> 'a list" where
  "js_sort cmp xs = foldr (js_insert cmp) xs []"

text \<open>
  \<^verbatim>\<open>new Date(a).getTime() - new Date(b).getTime()\<close>, as the sort reads it. The date parser
  is the runtime's: \<open>getTime\<close> is a parameter, \<open>None\<close> for \<^verbatim>\<open>NaN\<close> (an invalid date).
\<close>

definition time_diff :: "(string \<Rightarrow> int option) \<Rightarrow> string \<Rightarrow> string \<Rightarrow> int" where
  "time_diff getTime a b =
     (case (getTime a, getTime b) of (Some x, Some y) \<Rightarrow> x - y | _ \<Rightarrow> 0)"

text \<open>The decimal digits of a number, for the template literal \<^verbatim>\<open>`legacy-${index}`\<close>.\<close>

fun string_of_nat :: "nat \<Rightarrow> string" where
  "string_of_nat n =
     (if n < 10 then [char_of (48 + n)]
      else string_of_nat (n div 10) @ [char_of (48 + n mod 10)])"

declare string_of_nat.simps [simp del]

text \<open>
  Lines 252 to 266, one entry of \<^verbatim>\<open>grouped\<close>. \<^verbatim>\<open>sorted[0].question\<close> throws a TypeError on
  an empty array: \<open>None\<close>.
\<close>

definition group_summary :: "(string \<Rightarrow> int option) \<Rightarrow> string \<times> group \<Rightarrow> conversation option" where
  "group_summary getTime e =
     (case e of (sid, v) \<Rightarrow>
       (let sorted = js_sort (\<lambda>a b. time_diff getTime (createdAt a) (createdAt b)) (logs v)
        in if sorted = [] then None
           else Some \<lparr>key = sid, convSessionId = Some sid, title = question (sorted ! 0),
                  date = latestDate v, convModel = model (sorted ! (length sorted - 1)),
                  msgCount = length (logs v), allLogs = sorted\<rparr>))"

text \<open>Lines 269 to 279, one entry of \<^verbatim>\<open>ungrouped\<close>.\<close>

definition legacy_summary :: "LogItem \<times> nat \<Rightarrow> conversation" where
  "legacy_summary e =
     (case e of (log, index) \<Rightarrow>
       \<lparr>key = ''legacy-'' @ string_of_nat index, convSessionId = None, title = question log,
        date = createdAt log, convModel = model log, msgCount = 1, allLogs = [log]\<rparr>)"

definition conversations :: "(string \<Rightarrow> int option) \<Rightarrow> LogItem list \<Rightarrow> conversation list option" where
  "conversations getTime historyItems =
     (case fold group_step (enumerate 0 historyItems) ([], []) of
        (grouped, ungrouped) \<Rightarrow>
          (case those (map (group_summary getTime) grouped) of
             None \<Rightarrow> None
           | Some result \<Rightarrow>
               Some (js_sort (\<lambda>a b. time_diff getTime (date b) (date a))
                      (result @ map legacy_summary ungrouped))))"

subsection \<open>The grouping algorithm in the words of the specification\<close>

text \<open>
  A stable sort by a key, descending: an element goes before the first element whose key is
  not greater than its own.
\<close>

fun insort_desc :: "('a \<Rightarrow> 'k::linorder) \<Rightarrow> 'a \<Rightarrow> 'a list \<Rightarrow> 'a list" where
  "insort_desc f x [] = [x]"
| "insort_desc f x (y # ys) = (if f y \<le> f x then x # y # ys else y # insort_desc f x ys)"

definition sort_desc :: "('a \<Rightarrow> 'k::linorder) \<Rightarrow> 'a list \<Rightarrow> 'a list" where
  "sort_desc f xs = foldr (insort_desc f) xs []"

text \<open>
  The session identifier a record is grouped under. The specification's reading is
  \<open>sessionId\<close> itself (every non-null value); the code's reading is \<open>usable_sessionId\<close>,
  where the empty string counts as no identifier.
\<close>

definition usable_sessionId :: "LogItem \<Rightarrow> string option" where
  "usable_sessionId l =
     (case sessionId l of None \<Rightarrow> None | Some s \<Rightarrow> if s = [] then None else Some s)"

text \<open>The distinct session identifiers, in the order of their first record.\<close>

definition distinct_sessions :: "(LogItem \<Rightarrow> string option) \<Rightarrow> LogItem list \<Rightarrow> string list" where
  "distinct_sessions sid_of ls = rev (remdups (rev (List.map_filter sid_of ls)))"

text \<open>
  Step 2: all records of the session, sorted ascending by \<open>createdAt\<close> (a sortable
  timestamp string); title of the first, model of the last, the maximum \<open>createdAt\<close>, the
  count.
\<close>

definition spec_summary :: "(LogItem \<Rightarrow> string option) \<Rightarrow> LogItem list \<Rightarrow> string \<Rightarrow> conversation" where
  "spec_summary sid_of ls sid =
     (let recs = filter (\<lambda>l. sid_of l = Some sid) ls;
          ordered = sort_key createdAt recs
      in \<lparr>key = sid, convSessionId = Some sid, title = question (hd ordered),
          date = Max (set (map createdAt recs)), convModel = model (last ordered),
          msgCount = length recs, allLogs = ordered\<rparr>)"

text \<open>Step 3: a legacy record with its position in the fetch.\<close>

definition spec_legacy :: "nat \<times> LogItem \<Rightarrow> conversation" where
  "spec_legacy e =
     (case e of (i, l) \<Rightarrow>
       \<lparr>key = ''legacy-'' @ string_of_nat i, convSessionId = None, title = question l,
        date = createdAt l, convModel = model l, msgCount = 1, allLogs = [l]\<rparr>)"

text \<open>Step 4: grouped summaries, then legacy summaries, sorted by the latest timestamp.\<close>

definition spec_grouping :: "(LogItem \<Rightarrow> string option) \<Rightarrow> LogItem list \<Rightarrow> conversation list" where
  "spec_grouping sid_of ls =
     sort_desc date
       (map (spec_summary sid_of ls) (distinct_sessions sid_of ls)
        @ map spec_legacy (filter (\<lambda>e. sid_of (snd e) = None) (enumerate 0 ls)))"

text \<open>
  The data model's "ISO-8601 sortable": every timestamp of the input parses, and the parsed
  times are ordered as the strings are.
\<close>

definition iso_sortable :: "(string \<Rightarrow> int option) \<Rightarrow> LogItem list \<Rightarrow> bool" where
  "iso_sortable getTime ls =
     (\<forall>a \<in> set ls. \<forall>b \<in> set ls.
        (case (getTime (createdAt a), getTime (createdAt b)) of
           (Some x, Some y) \<Rightarrow> (x \<le> y) = (createdAt a \<le> createdAt b)
         | _ \<Rightarrow> False))"

text \<open>
  A date parser for the examples: the epoch milliseconds of the timestamps used below, and
  \<^verbatim>\<open>NaN\<close> for any other string.
\<close>

definition getTime_demo :: "string \<Rightarrow> int option" where
  "getTime_demo = map_of
     [(''2024-01-01T00:00:00.000Z'', 1704067200000),
      (''2024-01-02T00:00:00.000Z'', 1704153600000),
      (''2024-01-03T00:00:00.000Z'', 1704240000000),
      (''2024-01-04T00:00:00.000Z'', 1704326400000)]"

definition doc_empty_sid :: LogItem where
  "doc_empty_sid = \<lparr>sessionId = Some [], question = ''q'', answer = ''a'', model = ''m'',
     createdAt = ''2024-01-01T00:00:00.000Z''\<rparr>"

text \<open>
  The entry of \<^verbatim>\<open>grouped\<close> for a session after the records \<open>ls\<close> have been visited: its
  records in input order, the question of the first, and the greatest \<open>createdAt\<close> string.
\<close>

definition group_of :: "LogItem list \<Rightarrow> string \<Rightarrow> group" where
  "group_of ls sid =
     (let recs = filter (\<lambda>l. usable_sessionId l = Some sid) ls
      in \<lparr>logs = recs, firstQuestion = question (hd recs),
          latestDate = Max (set (map createdAt recs))\<rparr>)"

section \<open>The page and the sidebar: state and handlers\<close>

text \<open>
  The React state the deletion touches: \<^verbatim>\<open>messages\<close>, \<^verbatim>\<open>sessionId\<close> (passed to the sidebar as
  \<^verbatim>\<open>activeSessionId\<close>, the name used here), \<^verbatim>\<open>historyVersion\<close> and \<^verbatim>\<open>chatStats\<close> of
  \<^verbatim>\<open>app/page.tsx\<close>; \<^verbatim>\<open>selectionMode\<close>, \<^verbatim>\<open>selectedKeys\<close> and \<^verbatim>\<open>deleting\<close> of the sidebar. The
  \<^verbatim>\<open>Set\<close> of selected keys is the list of its elements in insertion order, as
  \<^verbatim>\<open>Array.from\<close> reads it.
\<close>

datatype role = User | Assistant

typedecl chat_stats

record app_state =
  messages :: "(role \<times> string) list"
  activeSessionId :: "string option"
  historyVersion :: nat
  chatStats :: "chat_stats option"
  selectionMode :: bool
  selectedKeys :: "string list"
  deleting :: bool

text \<open>\<^verbatim>\<open>startNewChat\<close> and \<^verbatim>\<open>loadChat\<close> (page.tsx, lines 187 to 203).\<close>

definition startNewChat :: "app_state \<Rightarrow> app_state" where
  "startNewChat s =
     s\<lparr>messages := [], activeSessionId := None, chatStats := None,
       historyVersion := historyVersion s + 1\<rparr>"

definition loadChat :: "string \<Rightarrow> LogItem list \<Rightarrow> app_state \<Rightarrow> app_state" where
  "loadChat chatSessionId ls s =
     s\<lparr>messages := concat (map (\<lambda>l. [(User, question l), (Assistant, answer l)]) ls),
       activeSessionId := Some chatSessionId, chatStats := None\<rparr>"

text \<open>
  \<^verbatim>\<open>handleDeleteChats\<close> (page.tsx, lines 205 to 214). The handler reads \<^verbatim>\<open>sessionId\<close> from its
  closure, the value of the render that created it: the first argument. The setters act on
  the current state. \<^verbatim>\<open>sessionId && ...\<close> is truthiness: neither \<^verbatim>\<open>null\<close> nor the empty
  string passes.
\<close>

definition handleDeleteChats :: "string option \<Rightarrow> string list option \<Rightarrow> app_state \<Rightarrow> app_state" where
  "handleDeleteChats sessionId_seen deletedSessionIds s =
     (let s1 = s\<lparr>historyVersion := historyVersion s + 1\<rparr>
      in if (case deletedSessionIds of
               None \<Rightarrow> True
             | Some ids \<Rightarrow>
                 (case sessionId_seen of None \<Rightarrow> False | Some a \<Rightarrow> a \<noteq> [] \<and> a \<in> set ids))
         then startNewChat s1 else s1)"

text \<open>
  \<^verbatim>\<open>callDelete\<close> (Sidebar, lines 181 to 205) in its two halves: up to the \<^verbatim>\<open>await fetch\<close>,
  and from the settled fetch on. A fetch is rejected (the transport failed) or answers with
  \<^verbatim>\<open>res.ok\<close> true or false; \<^verbatim>\<open>!res.ok\<close> throws, and \<^verbatim>\<open>catch\<close> swallows either failure.
\<close>

datatype fetch_result = Rejected | Response bool

definition callDelete_start :: "app_state \<Rightarrow> app_state" where
  "callDelete_start s = s\<lparr>deleting := True\<rparr>"

definition callDelete_settle ::
  "string option \<Rightarrow> string list option \<Rightarrow> fetch_result \<Rightarrow> app_state \<Rightarrow> app_state" where
  "callDelete_settle sessionId_seen sessionIds r s =
     (let s1 = (case r of
                  Response True \<Rightarrow>
                    (handleDeleteChats sessionId_seen sessionIds s)
                      \<lparr>selectionMode := False, selectedKeys := []\<rparr>
                | _ \<Rightarrow> s)
      in s1\<lparr>deleting := False\<rparr>)"

text \<open>
  One whole call with nothing in between. \<^verbatim>\<open>JSON.parse\<close> of the stored settings can throw
  before any request is sent: \<open>SettingsUnreadable\<close>.
\<close>

datatype delete_outcome = SettingsUnreadable | Fetched fetch_result

definition callDelete :: "string list option \<Rightarrow> delete_outcome \<Rightarrow> app_state \<Rightarrow> app_state" where
  "callDelete sessionIds outcome s =
     (case outcome of
        SettingsUnreadable \<Rightarrow> (callDelete_start s)\<lparr>deleting := False\<rparr>
      | Fetched r \<Rightarrow> callDelete_settle (activeSessionId s) sessionIds r (callDelete_start s))"

subsection \<open>The events of the sidebar\<close>

text \<open>
  The running application: the React state, whether the stored settings parse, and the
  deletion requests sent and not yet settled, each with the \<^verbatim>\<open>sessionId\<close> its handler saw.
  React renders after every event, and a button that is not rendered or is \<^verbatim>\<open>disabled\<close>
  dispatches no click: the guards of \<open>step\<close> are the conditions under which the JSX of lines
  325 to 383 and 537 to 549 renders the button enabled.
\<close>

record system =
  ui :: app_state
  settingsOk :: bool
  inflight :: "(string list option \<times> string option) list"

datatype event =
  ClickSelect
  | ClickCancel
  | ClickRow conversation
  | ClickRowTrash conversation
  | ClickDeleteSelected
  | ClickDeleteAll
  | ClickNewChat
  | SettingsWritten bool
  | DeleteSettles fetch_result

definition callDelete_click :: "string list option \<Rightarrow> system \<Rightarrow> system" where
  "callDelete_click sessionIds s =
     (if settingsOk s
      then s\<lparr>ui := callDelete_start (ui s),
             inflight := inflight s @ [(sessionIds, activeSessionId (ui s))]\<rparr>
      else s\<lparr>ui := callDelete sessionIds SettingsUnreadable (ui s)\<rparr>)"

definition toggle_key :: "string \<Rightarrow> string list \<Rightarrow> string list" where
  "toggle_key k ks = (if k \<in> set ks then removeAll k ks else ks @ [k])"

fun step :: "event \<Rightarrow> system \<Rightarrow> system" where
  "step ClickSelect s =
     (if \<not> selectionMode (ui s) then s\<lparr>ui := (ui s)\<lparr>selectionMode := True\<rparr>\<rparr> else s)"
| "step ClickCancel s =
     (if selectionMode (ui s)
      then s\<lparr>ui := (ui s)\<lparr>selectionMode := False, selectedKeys := []\<rparr>\<rparr> else s)"
| "step (ClickRow conv) s =
     (if selectionMode (ui s)
      then s\<lparr>ui := (ui s)\<lparr>selectedKeys := toggle_key (key conv) (selectedKeys (ui s))\<rparr>\<rparr>
      else s\<lparr>ui := loadChat (case convSessionId conv of Some i \<Rightarrow> i | None \<Rightarrow> key conv)
                      (allLogs conv) (ui s)\<rparr>)"
| "step (ClickRowTrash conv) s =
     (case convSessionId conv of
        Some i \<Rightarrow>
          if \<not> selectionMode (ui s) \<and> i \<noteq> [] \<and> \<not> deleting (ui s)
          then callDelete_click (Some [i]) s else s
      | None \<Rightarrow> s)"
| "step ClickDeleteSelected s =
     (if selectionMode (ui s) \<and> \<not> (length (selectedKeys (ui s)) = 0 \<or> deleting (ui s))
      then (if length (selectedKeys (ui s)) > 0
            then callDelete_click (Some (selectedKeys (ui s))) s else s)
      else s)"
| "step ClickDeleteAll s =
     (if selectionMode (ui s) \<and> \<not> deleting (ui s) then callDelete_click None s else s)"
| "step ClickNewChat s = s\<lparr>ui := startNewChat (ui s)\<rparr>"
| "step (SettingsWritten b) s = s\<lparr>settingsOk := b\<rparr>"
| "step (DeleteSettles r) s =
     (case inflight s of
        [] \<Rightarrow> s
      | (sessionIds, seen) # rest \<Rightarrow>
          s\<lparr>ui := callDelete_settle seen sessionIds r (ui s), inflight := rest\<rparr>)"

definition is_delete_click :: "event \<Rightarrow> bool" where
  "is_delete_click e =
     (case e of ClickRowTrash c \<Rightarrow> True | ClickDeleteSelected \<Rightarrow> True | ClickDeleteAll \<Rightarrow> True
      | _ \<Rightarrow> False)"

definition app_demo :: app_state where
  "app_demo = \<lparr>messages = [(User, ''hi''), (Assistant, ''hello'')], activeSessionId = Some ''A'',
     historyVersion = 3, chatStats = None, selectionMode = True, selectedKeys = [''A'', ''B''],
     deleting = False\<rparr>"

definition system_demo :: system where
  "system_demo = \<lparr>ui = app_demo, settingsOk = True, inflight = []\<rparr>"

text \<open>
  The invariant of the busy flag: at most one request in flight, and the flag is set while
  one is.
\<close>

definition busy_inv :: "system \<Rightarrow> bool" where
  "busy_inv s = (length (inflight s) \<le> 1 \<and> (inflight s = [] \<or> deleting (ui s)))"

section \<open>The search view of the sidebar (lines 55 to 62 and 122 to 169)\<close>

text \<open>
  \<^verbatim>\<open>String.prototype.trim\<close> on the white space of ASCII (tab, line feed, vertical tab, form
  feed, carriage return, space); strings here are byte strings.
\<close>

definition is_space :: "char \<Rightarrow> bool" where
  "is_space c = (c \<in> set [CHR 0x09, CHR 0x0A, CHR 0x0B, CHR 0x0C, CHR 0x0D, CHR '' ''])"

definition js_trim :: "string \<Rightarrow> string" where
  "js_trim s = rev (dropWhile is_space (rev (dropWhile is_space s)))"

datatype tab = History | Search

text \<open>
  The state of the two tabs. \<open>debounceRef\<close> is the pending timer, with the term its callback
  will search (\<open>None\<close>: no timer is pending). \<open>requests\<close> are the search fetches sent and not
  yet settled, numbered in the order they were sent; \<open>issued\<close> counts them.
\<close>

record search_view =
  tab :: tab
  historyLogs :: "LogItem list"
  query :: string
  searchResults :: "LogItem list"
  searching :: bool
  searchError :: "string option"
  hasSearched :: bool
  debounceRef :: "string option"
  requests :: "(nat \<times> string) list"
  issued :: nat

text \<open>\<^verbatim>\<open>handleSearch\<close>: \<^verbatim>\<open>clearTimeout\<close> drops the pending timer, a non-blank value sets a new one.\<close>

definition handleSearch :: "string \<Rightarrow> search_view \<Rightarrow> search_view" where
  "handleSearch v s =
     (let s1 = s\<lparr>query := v, debounceRef := None\<rparr>
      in if js_trim v = []
         then s1\<lparr>searchResults := [], hasSearched := False, searchError := None\<rparr>
         else s1\<lparr>debounceRef := Some (js_trim v)\<rparr>)"

text \<open>
  \<^verbatim>\<open>runSearch\<close> up to the fetch; the flag says whether the stored settings parse (otherwise
  the \<^verbatim>\<open>catch\<close> of lines 165 to 168 runs and nothing is sent).
\<close>

definition runSearch :: "bool \<Rightarrow> string \<Rightarrow> search_view \<Rightarrow> search_view" where
  "runSearch settings_ok term s =
     (let s1 = s\<lparr>searching := True, searchError := None, hasSearched := True\<rparr>
      in if settings_ok
         then s1\<lparr>requests := requests s1 @ [(issued s1, term)], issued := issued s1 + 1\<rparr>
         else s1\<lparr>searching := False, searchError := Some ''Search failed''\<rparr>)"

text \<open>
  The promise chain of lines 153 to 164 on a settled fetch: \<^verbatim>\<open>data.logs || []\<close> is written
  to \<^verbatim>\<open>searchResults\<close>; a rejected fetch or a response that is not ok sets the error.
\<close>

datatype search_response = SearchRejected | SearchNotOk | SearchData "LogItem list option"

definition search_settle :: "search_response \<Rightarrow> search_view \<Rightarrow> search_view" where
  "search_settle r s =
     (case r of
        SearchData ls \<Rightarrow> s\<lparr>searchResults := (case ls of Some l \<Rightarrow> l | None \<Rightarrow> [])\<rparr>
      | _ \<Rightarrow> s\<lparr>searchError := Some ''Search failed''\<rparr>)\<lparr>searching := False\<rparr>"

datatype search_event =
  Keystroke string
  | TimerFires bool
  | SearchSettles nat search_response

fun search_step :: "search_event \<Rightarrow> search_view \<Rightarrow> search_view" where
  "search_step (Keystroke v) s = handleSearch v s"
| "search_step (TimerFires settings_ok) s =
     (case debounceRef s of
        None \<Rightarrow> s
      | Some term \<Rightarrow> runSearch settings_ok term (s\<lparr>debounceRef := None\<rparr>))"
| "search_step (SearchSettles n r) s =
     (if n \<in> fst ` set (requests s)
      then search_settle r (s\<lparr>requests := filter (\<lambda>p. fst p \<noteq> n) (requests s)\<rparr>)
      else s)"

text \<open>Lines 209 and 214: the list the grouping runs on, and the rows shown.\<close>

definition historyItems :: "search_view \<Rightarrow> LogItem list" where
  "historyItems s = (if tab s = History then historyLogs s else searchResults s)"


definition search_init :: search_view where
  "search_init = \<lparr>tab = Search, historyLogs = [], query = [], searchResults = [],
     searching = False, searchError = None, hasSearched = False, debounceRef = None,
     requests = [], issued = 0\<rparr>"

definition doc_alpha :: LogItem where
  "doc_alpha = \<lparr>sessionId = Some ''A'', question = ''alpha'', answer = ''one'', model = ''m1'',
     createdAt = ''2024-01-02T00:00:00.000Z''\<rparr>"

definition doc_abc :: LogItem where
  "doc_abc = \<lparr>sessionId = Some ''B'', question = ''abc'', answer = ''two'', model = ''m1'',
     createdAt = ''2024-01-03T00:00:00.000Z''\<rparr>"

text \<open>
  Two searches overlap: the request for \<open>a\<close> is still in flight when the one for \<open>ab\<close> is
  sent, and the answer for \<open>ab\<close> arrives first.
\<close>

definition overlapping_searches :: "search_event list" where
  "overlapping_searches =
     [Keystroke ''a'', TimerFires True, Keystroke ''ab'', TimerFires True,
      SearchSettles 1 (SearchData (Some [doc_abc])),
      SearchSettles 0 (SearchData (Some [doc_abc, doc_alpha]))]"

section \<open>The log fetch: \<^verbatim>\<open>POST /api/logs\<close>\<close>



text \<open>
  The aggregation of lines 85 to 96: \<^verbatim>\<open>$group\<close> by \<^verbatim>\<open>sessionId\<close> (a missing field groups under
  \<^verbatim>\<open>null\<close>, here \<open>None\<close>) with \<^verbatim>\<open>latestAt = $max createdAt\<close>, sorted by \<^verbatim>\<open>latestAt\<close> descending,
  limited to 50.
\<close>

definition group_ids :: "LogItem list \<Rightarrow> string option list" where
  "group_ids docs = rev (remdups (rev (map sessionId docs)))"

definition latestAt :: "LogItem list \<Rightarrow> string option \<Rightarrow> string" where
  "latestAt docs g = Max (set (map createdAt (filter (\<lambda>d. sessionId d = g) docs)))"

definition recentSessions :: "LogItem list \<Rightarrow> (string option \<times> string) list" where
  "recentSessions docs = take 50 (sort_desc snd (map (\<lambda>g. (g, latestAt docs g)) (group_ids docs)))"




subsection \<open>The search contract in the words of the specification\<close>












section \<open>Deletion endpoint: results\<close>

lemma delete_query_set_iff:
  "delete_query sessionIds \<noteq> MatchAll \<longleftrightarrow> (\<exists>v vs. sessionIds = Some (JArr (v # vs)))"
  by (cases sessionIds rule: isArray.cases) (auto simp: delete_query_def neq_Nil_conv)

lemma deleteMany_all: "deleteMany MatchAll docs = ([], length docs)"
  by (simp add: deleteMany_def)

lemma matches_legacy_strings:
  "sessionId d = None \<Longrightarrow> \<not> matches (SessionIdIn (map JStr ids)) d"
  by auto

text \<open>
  C5. The set-scoped delete is chosen only for an array with at least one element. For every
  other \<^verbatim>\<open>sessionIds\<close> (an empty array, a missing field, a value that is not an array) the
  endpoint deletes with the empty filter and no document is left.
\<close>

theorem delete_POST_branch:
  "(delete_query sessionIds \<noteq> MatchAll \<longrightarrow> (\<exists>v vs. sessionIds = Some (JArr (v # vs))))
   \<and> ((\<exists>v vs. sessionIds = Some (JArr (v # vs))) \<longrightarrow>
        delete_POST Connected sessionIds docs =
          (Status200 (length (filter (matches (SessionIdIn (elements sessionIds))) docs)),
           filter (\<lambda>d. \<not> matches (SessionIdIn (elements sessionIds)) d) docs))
   \<and> ((\<nexists>v vs. sessionIds = Some (JArr (v # vs))) \<longrightarrow>
        delete_query sessionIds = MatchAll
        \<and> delete_POST Connected sessionIds docs = (Status200 (length docs), []))"
proof (intro conjI impI)
  assume "delete_query sessionIds \<noteq> MatchAll"
  then show "\<exists>v vs. sessionIds = Some (JArr (v # vs))"
    by (simp add: delete_query_set_iff)
next
  assume "\<exists>v vs. sessionIds = Some (JArr (v # vs))"
  then show "delete_POST Connected sessionIds docs =
      (Status200 (length (filter (matches (SessionIdIn (elements sessionIds))) docs)),
       filter (\<lambda>d. \<not> matches (SessionIdIn (elements sessionIds)) d) docs)"
    by (auto simp: delete_POST_def delete_query_def deleteMany_def)
next
  assume no: "\<nexists>v vs. sessionIds = Some (JArr (v # vs))"
  then show q: "delete_query sessionIds = MatchAll"
    using delete_query_set_iff by blast
  show "delete_POST Connected sessionIds docs = (Status200 (length docs), [])"
    by (simp add: delete_POST_def q deleteMany_all)
qed

theorem delete_POST_branch_witness:
  "delete_POST Connected (Some (JArr [])) [legacy_doc, doc_A1] = (Status200 2, [])
   \<and> delete_POST Connected None [legacy_doc, doc_A1] = (Status200 2, [])
   \<and> delete_POST Connected (Some (JStr ''A'')) [legacy_doc, doc_A1] = (Status200 2, [])
   \<and> delete_POST Connected (Some JNull) [legacy_doc, doc_A1] = (Status200 2, [])
   \<and> delete_query (Some (JArr [JStr ''A''])) \<noteq> MatchAll
   \<and> delete_POST Connected (Some (JArr [JStr ''A''])) [legacy_doc, doc_A1]
       = (Status200 1, [legacy_doc])"
  using delete_POST_branch [of "Some (JArr [])" "[legacy_doc, doc_A1]"]
    delete_POST_branch [of None "[legacy_doc, doc_A1]"]
    delete_POST_branch [of "Some (JStr ''A'')" "[legacy_doc, doc_A1]"]
    delete_POST_branch [of "Some JNull" "[legacy_doc, doc_A1]"]
    delete_POST_branch [of "Some (JArr [JStr ''A''])" "[legacy_doc, doc_A1]"]
  by (simp add: legacy_doc_def doc_A1_def delete_query_def)

text \<open>
  C3, as stated, fails for the explicit set with no element: the request body
  \<^verbatim>\<open>{ sessionIds: [] }\<close> takes the delete-everything branch, and a record with no
  \<^verbatim>\<open>sessionId\<close> is removed.
\<close>

theorem explicit_empty_set_removes_legacy:
  "sessionId legacy_doc = None
   \<and> snd (delete_POST Connected (delete_body (Some [])) [legacy_doc, doc_A1]) = []"
  by (simp add: legacy_doc_def doc_A1_def delete_body_def delete_POST_def delete_query_def
      deleteMany_def)

text \<open>
  C3, amended. A request with an explicit set of at least one session identifier removes
  exactly the records whose \<^verbatim>\<open>sessionId\<close> is in the set, so every record with no
  \<^verbatim>\<open>sessionId\<close> stays in the store; a request for "all" leaves no record, with or without
  \<^verbatim>\<open>sessionId\<close>.
\<close>

theorem explicit_set_keeps_legacy:
  "(ids \<noteq> [] \<longrightarrow>
      snd (delete_POST Connected (delete_body (Some ids)) docs)
        = filter (\<lambda>d. \<forall>s. sessionId d = Some s \<longrightarrow> s \<notin> set ids) docs
      \<and> filter (\<lambda>d. sessionId d = None) (snd (delete_POST Connected (delete_body (Some ids)) docs))
        = filter (\<lambda>d. sessionId d = None) docs)
   \<and> snd (delete_POST Connected (delete_body None) docs) = []"
proof (intro conjI impI)
  assume ne: "ids \<noteq> []"
  have q: "delete_query (delete_body (Some ids)) = SessionIdIn (map JStr ids)"
    using ne by (simp add: delete_query_def delete_body_def)
  have m: "\<And>d. matches (SessionIdIn (map JStr ids)) d
             \<longleftrightarrow> \<not> (\<forall>s. sessionId d = Some s \<longrightarrow> s \<notin> set ids)"
    by (auto split: option.splits)
  show r: "snd (delete_POST Connected (delete_body (Some ids)) docs)
        = filter (\<lambda>d. \<forall>s. sessionId d = Some s \<longrightarrow> s \<notin> set ids) docs"
  proof -
    have "snd (delete_POST Connected (delete_body (Some ids)) docs)
        = filter (\<lambda>d. \<not> matches (SessionIdIn (map JStr ids)) d) docs"
      by (simp add: delete_POST_def q deleteMany_def del: matches.simps)
    then show ?thesis
      by (simp only: m not_not)
  qed
  show "filter (\<lambda>d. sessionId d = None) (snd (delete_POST Connected (delete_body (Some ids)) docs))
        = filter (\<lambda>d. sessionId d = None) docs"
    unfolding r by (induction docs) auto
next
  show "snd (delete_POST Connected (delete_body None) docs) = []"
    by (simp add: delete_POST_def delete_body_def delete_query_def deleteMany_def)
qed

theorem explicit_set_keeps_legacy_witness:
  "snd (delete_POST Connected (delete_body (Some [''A''])) [legacy_doc, doc_A1, doc_B1])
     = [legacy_doc, doc_B1]
   \<and> snd (delete_POST Connected (delete_body None) [legacy_doc, doc_A1, doc_B1]) = []"
  using explicit_set_keeps_legacy [of "[''A'']" "[legacy_doc, doc_A1, doc_B1]"]
  by (simp add: legacy_doc_def doc_A1_def doc_B1_def)

section \<open>Grouping: sorting lemmas\<close>

lemma js_insert_insort_key:
  "\<forall>y \<in> set ys. (cmp x y \<le> 0) = (f x \<le> f y) \<Longrightarrow> js_insert cmp x ys = insort_key f x ys"
  by (induction ys) auto

lemma js_sort_sort_key:
  "\<forall>x \<in> set xs. \<forall>y \<in> set xs. (cmp x y \<le> 0) = (f x \<le> f y) \<Longrightarrow> js_sort cmp xs = sort_key f xs"
proof (induction xs)
  case Nil
  then show ?case by (simp add: js_sort_def)
next
  case (Cons x xs)
  then have ih: "js_sort cmp xs = sort_key f xs" by simp
  have "js_sort cmp (x # xs) = js_insert cmp x (sort_key f xs)"
    using ih by (simp add: js_sort_def)
  also have "\<dots> = insort_key f x (sort_key f xs)"
    using Cons.prems by (intro js_insert_insort_key) simp
  finally show ?case by (simp add: sort_key_def)
qed

lemma set_insort_desc: "set (insort_desc f x ys) = insert x (set ys)"
  by (induction ys) auto

lemma set_sort_desc: "set (sort_desc f xs) = set xs"
  by (induction xs) (auto simp: sort_desc_def set_insort_desc)



lemma sorted_insort_desc:
  "sorted_wrt (\<lambda>a b. f b \<le> f a) ys \<Longrightarrow> sorted_wrt (\<lambda>a b. f b \<le> f a) (insort_desc f x ys)"
  by (induction ys) (auto simp: set_insort_desc)

lemma sorted_sort_desc: "sorted_wrt (\<lambda>a b. f b \<le> f a) (sort_desc f xs)"
  by (induction xs) (auto simp: sort_desc_def sorted_insort_desc)

lemma filter_insort_desc_other:
  "f x \<noteq> k \<Longrightarrow> filter (\<lambda>y. f y = k) (insort_desc f x ys) = filter (\<lambda>y. f y = k) ys"
  by (induction ys) auto

lemma filter_insort_desc_same:
  "sorted_wrt (\<lambda>a b. f b \<le> f a) ys \<Longrightarrow>
   filter (\<lambda>y. f y = f x) (insort_desc f x ys) = x # filter (\<lambda>y. f y = f x) ys"
proof (induction ys)
  case Nil
  then show ?case by simp
next
  case (Cons y ys)
  show ?case
  proof (cases "f y \<le> f x")
    case True
    then show ?thesis by simp
  next
    case False
    then have "f y \<noteq> f x" by auto
    with False Cons show ?thesis by simp
  qed
qed

lemma sort_desc_stable: "filter (\<lambda>y. f y = k) (sort_desc f xs) = filter (\<lambda>y. f y = k) xs"
proof (induction xs)
  case Nil
  then show ?case by (simp add: sort_desc_def)
next
  case (Cons x xs)
  have s: "sort_desc f (x # xs) = insort_desc f x (sort_desc f xs)"
    by (simp add: sort_desc_def)
  show ?case
  proof (cases "f x = k")
    case True
    then show ?thesis
      using filter_insort_desc_same [OF sorted_sort_desc, of f x xs] Cons by (simp add: s)
  next
    case False
    then show ?thesis
      using Cons by (simp add: s filter_insort_desc_other)
  qed
qed

lemma js_insert_insort_desc:
  "\<forall>y \<in> set ys. (cmp x y \<le> 0) = (f y \<le> f x) \<Longrightarrow> js_insert cmp x ys = insort_desc f x ys"
  by (induction ys) auto

lemma js_sort_sort_desc:
  "\<forall>x \<in> set xs. \<forall>y \<in> set xs. (cmp x y \<le> 0) = (f y \<le> f x) \<Longrightarrow> js_sort cmp xs = sort_desc f xs"
proof (induction xs)
  case Nil
  then show ?case by (simp add: js_sort_def sort_desc_def)
next
  case (Cons x xs)
  then have ih: "js_sort cmp xs = sort_desc f xs" by simp
  have "js_sort cmp (x # xs) = js_insert cmp x (sort_desc f xs)"
    using ih by (simp add: js_sort_def)
  also have "\<dots> = insort_desc f x (sort_desc f xs)"
    using Cons.prems by (intro js_insert_insort_desc) (simp add: set_sort_desc)
  finally show ?case by (simp add: sort_desc_def)
qed

lemma length_js_insert: "length (js_insert cmp x ys) = Suc (length ys)"
  by (induction ys) auto

lemma length_js_sort: "length (js_sort cmp xs) = length xs"
  by (induction xs) (auto simp: js_sort_def length_js_insert)

lemma js_sort_Nil_iff: "js_sort cmp xs = [] \<longleftrightarrow> xs = []"
  using length_js_sort [of cmp xs] by (metis length_0_conv)

section \<open>Grouping: the state of the loop\<close>

lemma map_filter_snoc:
  "List.map_filter f (xs @ [x]) = List.map_filter f xs @ (case f x of None \<Rightarrow> [] | Some y \<Rightarrow> [y])"
  by (simp add: List.map_filter_def split: option.splits)

lemma set_map_filter: "set (List.map_filter f xs) = {y. \<exists>x \<in> set xs. f x = Some y}"
  by (induction xs) (auto simp: map_filter_simps split: option.splits)

lemma distinct_distinct_sessions: "distinct (distinct_sessions f xs)"
  by (simp add: distinct_sessions_def)

lemma set_distinct_sessions: "set (distinct_sessions f xs) = {s. \<exists>l \<in> set xs. f l = Some s}"
  by (simp add: distinct_sessions_def set_map_filter)

lemma length_distinct_sessions:
  "length (distinct_sessions f xs) = card (set (List.map_filter f xs))"
  by (simp add: distinct_sessions_def length_remdups_card_conv)

lemma distinct_sessions_snoc:
  "distinct_sessions f (xs @ [x]) =
     (case f x of
        None \<Rightarrow> distinct_sessions f xs
      | Some s \<Rightarrow> if s \<in> set (distinct_sessions f xs) then distinct_sessions f xs
                  else distinct_sessions f xs @ [s])"
  by (auto simp: distinct_sessions_def map_filter_snoc split: option.splits)

lemma map_of_map_keys:
  "map_of (map (\<lambda>k. (k, g k)) ks) k = (if k \<in> set ks then Some (g k) else None)"
  by (induction ks) auto

lemma update_map_keys_new:
  "k \<notin> set ks \<Longrightarrow> AList.update k v (map (\<lambda>k. (k, g k)) ks) = map (\<lambda>k. (k, g k)) ks @ [(k, v)]"
  by (induction ks) auto

lemma update_map_keys_old:
  "k \<in> set ks \<Longrightarrow> distinct ks \<Longrightarrow>
   AList.update k v (map (\<lambda>k. (k, g k)) ks) = map (\<lambda>k'. (k', if k' = k then v else g k')) ks"
proof (induction ks)
  case Nil
  then show ?case by simp
next
  case (Cons a ks)
  show ?case
  proof (cases "a = k")
    case True
    then have "k \<notin> set ks" using Cons.prems by simp
    then have "map (\<lambda>k'. (k', if k' = k then v else g k')) ks = map (\<lambda>k. (k, g k)) ks"
      by (intro map_cong) auto
    with True show ?thesis by simp
  next
    case False
    with Cons show ?thesis by simp
  qed
qed

lemma latest_update_max:
  "(if l = [] \<or> c > l then c else l) = max l (c::string)"
  by (cases l) (auto simp: max_def)

lemma usable_cases:
  "usable_sessionId x = None \<longleftrightarrow> (sessionId x = None \<or> sessionId x = Some [])"
  "usable_sessionId x = Some s \<longleftrightarrow> (sessionId x = Some s \<and> s \<noteq> [])"
  by (auto simp: usable_sessionId_def split: option.splits)

lemma group_of_other:
  "usable_sessionId x \<noteq> Some sid \<Longrightarrow> group_of (xs @ [x]) sid = group_of xs sid"
  by (simp add: group_of_def)

lemma group_of_first:
  "usable_sessionId x = Some sid \<Longrightarrow> sid \<notin> set (distinct_sessions usable_sessionId xs) \<Longrightarrow>
   group_of (xs @ [x]) sid = \<lparr>logs = [x], firstQuestion = question x, latestDate = createdAt x\<rparr>"
proof -
  assume a: "usable_sessionId x = Some sid" and n: "sid \<notin> set (distinct_sessions usable_sessionId xs)"
  from n have "filter (\<lambda>l. usable_sessionId l = Some sid) xs = []"
    by (auto simp: set_distinct_sessions filter_empty_conv)
  with a show ?thesis by (simp add: group_of_def)
qed

lemma group_of_next:
  assumes a: "usable_sessionId x = Some sid"
    and n: "sid \<in> set (distinct_sessions usable_sessionId xs)"
  shows "group_of (xs @ [x]) sid =
      (group_of xs sid)\<lparr>logs := logs (group_of xs sid) @ [x],
         latestDate := (if latestDate (group_of xs sid) = [] \<or> createdAt x > latestDate (group_of xs sid)
                        then createdAt x else latestDate (group_of xs sid))\<rparr>"
proof -
  define recs where "recs = filter (\<lambda>l. usable_sessionId l = Some sid) xs"
  from n have ne: "recs \<noteq> []"
    by (auto simp: set_distinct_sessions filter_empty_conv recs_def)
  have m: "Max (set (map createdAt (recs @ [x]))) = max (Max (set (map createdAt recs))) (createdAt x)"
    using ne by (simp add: max.commute)
  have f: "filter (\<lambda>l. usable_sessionId l = Some sid) (xs @ [x]) = recs @ [x]"
    using a by (simp add: recs_def)
  have g0: "group_of xs sid = \<lparr>logs = recs, firstQuestion = question (hd recs),
      latestDate = Max (set (map createdAt recs))\<rparr>"
    by (simp add: group_of_def recs_def Let_def)
  have g1: "group_of (xs @ [x]) sid = \<lparr>logs = recs @ [x], firstQuestion = question (hd (recs @ [x])),
      latestDate = Max (set (map createdAt (recs @ [x])))\<rparr>"
    unfolding group_of_def f by (simp add: Let_def)
  have h: "hd (recs @ [x]) = hd recs"
    using ne by simp
  show ?thesis
    unfolding latest_update_max g1 g0 m h by simp
qed

lemma enumerate_snoc: "enumerate n (xs @ [x]) = enumerate n xs @ [(n + length xs, x)]"
  by (simp add: enumerate_append_eq)

lemma fold_group_step:
  "fold group_step (enumerate 0 xs) ([], []) =
     (map (\<lambda>sid. (sid, group_of xs sid)) (distinct_sessions usable_sessionId xs),
      map (\<lambda>e. (snd e, fst e)) (filter (\<lambda>e. usable_sessionId (snd e) = None) (enumerate 0 xs)))"
proof (induction xs rule: rev_induct)
  case Nil
  then show ?case by (simp add: distinct_sessions_def List.map_filter_def)
next
  case (snoc x xs)
  let ?ks = "distinct_sessions usable_sessionId xs"
  let ?un = "map (\<lambda>e. (snd e, fst e)) (filter (\<lambda>e. usable_sessionId (snd e) = None) (enumerate 0 xs))"
  have step: "fold group_step (enumerate 0 (xs @ [x])) ([], []) =
      group_step (length xs, x) (map (\<lambda>sid. (sid, group_of xs sid)) ?ks, ?un)"
    using snoc by (simp add: enumerate_snoc)
  show ?case
  proof (cases "usable_sessionId x")
    case None
    then have g: "\<And>sid. group_of (xs @ [x]) sid = group_of xs sid"
      by (simp add: group_of_other)
    from None have "group_step (length xs, x) (map (\<lambda>sid. (sid, group_of xs sid)) ?ks, ?un)
        = (map (\<lambda>sid. (sid, group_of xs sid)) ?ks, ?un @ [(x, length xs)])"
      by (auto simp: group_step_def usable_cases)
    moreover have "filter (\<lambda>e. usable_sessionId (snd e) = None) (enumerate 0 (xs @ [x]))
        = filter (\<lambda>e. usable_sessionId (snd e) = None) (enumerate 0 xs) @ [(length xs, x)]"
      using None by (simp add: enumerate_snoc)
    ultimately show ?thesis
      unfolding step using None by (simp add: distinct_sessions_snoc g)
  next
    case (Some sid)
    then have sx: "sessionId x = Some sid" and ne: "sid \<noteq> []"
      by (simp_all add: usable_cases)
    have un: "filter (\<lambda>e. usable_sessionId (snd e) = None) (enumerate 0 (xs @ [x]))
        = filter (\<lambda>e. usable_sessionId (snd e) = None) (enumerate 0 xs)"
      using Some by (simp add: enumerate_snoc)
    show ?thesis
    proof (cases "sid \<in> set ?ks")
      case True
      have "group_step (length xs, x) (map (\<lambda>sid. (sid, group_of xs sid)) ?ks, ?un)
          = (AList.update sid (group_of (xs @ [x]) sid) (map (\<lambda>sid. (sid, group_of xs sid)) ?ks), ?un)"
        using True by (simp add: group_step_def sx ne map_of_map_keys group_of_next [OF Some True])
      also have "AList.update sid (group_of (xs @ [x]) sid) (map (\<lambda>sid. (sid, group_of xs sid)) ?ks)
          = map (\<lambda>k'. (k', if k' = sid then group_of (xs @ [x]) sid else group_of xs k')) ?ks"
        by (rule update_map_keys_old [OF True distinct_distinct_sessions])
      also have "\<dots> = map (\<lambda>k. (k, group_of (xs @ [x]) k)) ?ks"
        using Some by (intro map_cong) (auto simp: group_of_other)
      finally show ?thesis
        unfolding step using True Some by (simp add: distinct_sessions_snoc un)
    next
      case False
      have e1: "group_step (length xs, x) (map (\<lambda>sid. (sid, group_of xs sid)) ?ks, ?un)
          = (AList.update sid (group_of (xs @ [x]) sid) (map (\<lambda>sid. (sid, group_of xs sid)) ?ks), ?un)"
        using False by (simp add: group_step_def sx ne map_of_map_keys group_of_first [OF Some False])
      have e2: "AList.update sid (group_of (xs @ [x]) sid) (map (\<lambda>sid. (sid, group_of xs sid)) ?ks)
          = map (\<lambda>sid. (sid, group_of xs sid)) ?ks @ [(sid, group_of (xs @ [x]) sid)]"
        by (rule update_map_keys_new [OF False])
      have e3: "map (\<lambda>k. (k, group_of (xs @ [x]) k)) ?ks = map (\<lambda>k. (k, group_of xs k)) ?ks"
      proof (intro map_cong refl)
        fix k assume "k \<in> set ?ks"
        with False have "usable_sessionId x \<noteq> Some k" using Some by auto
        then show "(k, group_of (xs @ [x]) k) = (k, group_of xs k)"
          by (simp add: group_of_other)
      qed
      show ?thesis
        unfolding step e1 e2 using False Some by (simp add: distinct_sessions_snoc un e3)
    qed
  qed
qed

section \<open>Grouping: results\<close>

lemma those_map_Some: "\<forall>x \<in> set xs. f x = Some (g x) \<Longrightarrow> those (map f xs) = Some (map g xs)"
  by (induction xs) auto

lemma iso_time_diff:
  assumes "iso_sortable t ls" "c \<in> createdAt ` set ls" "d \<in> createdAt ` set ls"
  shows "(time_diff t c d \<le> 0) = (c \<le> d)"
proof -
  from assms obtain a b where a: "a \<in> set ls" "c = createdAt a" and b: "b \<in> set ls" "d = createdAt b"
    by auto
  with assms(1) have "case (t (createdAt a), t (createdAt b)) of
      (Some x, Some y) \<Rightarrow> (x \<le> y) = (createdAt a \<le> createdAt b) | _ \<Rightarrow> False"
    unfolding iso_sortable_def by blast
  then show ?thesis
    by (auto simp: time_diff_def a b split: option.splits)
qed

lemma group_summary_spec:
  assumes iso: "iso_sortable t ls" and sid: "sid \<in> set (distinct_sessions usable_sessionId ls)"
  shows "group_summary t (sid, group_of ls sid) = Some (spec_summary usable_sessionId ls sid)"
proof -
  define recs where "recs = filter (\<lambda>l. usable_sessionId l = Some sid) ls"
  from sid have ne: "recs \<noteq> []"
    by (auto simp: set_distinct_sessions filter_empty_conv recs_def)
  have sub: "set recs \<subseteq> set ls" by (auto simp: recs_def)
  have srt: "js_sort (\<lambda>a b. time_diff t (createdAt a) (createdAt b)) recs = sort_key createdAt recs"
  proof (rule js_sort_sort_key, intro ballI)
    fix x y assume "x \<in> set recs" "y \<in> set recs"
    with sub show "(time_diff t (createdAt x) (createdAt y) \<le> 0) = (createdAt x \<le> createdAt y)"
      by (intro iso_time_diff [OF iso]) auto
  qed
  have ne': "sort_key createdAt recs \<noteq> []"
    using ne by (metis length_sort length_0_conv)
  have g: "group_of ls sid = \<lparr>logs = recs, firstQuestion = question (hd recs),
      latestDate = Max (set (map createdAt recs))\<rparr>"
    by (simp add: group_of_def recs_def Let_def)
  have s: "spec_summary usable_sessionId ls sid =
      \<lparr>key = sid, convSessionId = Some sid, title = question (hd (sort_key createdAt recs)),
       date = Max (set (map createdAt recs)), convModel = model (last (sort_key createdAt recs)),
       msgCount = length recs, allLogs = sort_key createdAt recs\<rparr>"
    by (simp add: spec_summary_def recs_def Let_def)
  show ?thesis
    unfolding g s using ne'
    by (simp add: group_summary_def srt Let_def hd_conv_nth last_conv_nth)
qed

lemma legacy_summary_spec: "legacy_summary (snd e, fst e) = spec_legacy e"
  by (cases e) (simp add: legacy_summary_def spec_legacy_def)

lemma date_spec_summary:
  assumes "sid \<in> set (distinct_sessions f ls)"
  shows "date (spec_summary f ls sid) \<in> createdAt ` set ls"
proof -
  define recs where "recs = filter (\<lambda>l. f l = Some sid) ls"
  from assms have ne: "recs \<noteq> []"
    by (auto simp: set_distinct_sessions filter_empty_conv recs_def)
  then have "Max (set (map createdAt recs)) \<in> set (map createdAt recs)"
    by (intro Max_in) auto
  moreover have "set (map createdAt recs) \<subseteq> createdAt ` set ls"
    by (auto simp: recs_def)
  ultimately show ?thesis
    by (auto simp: spec_summary_def Let_def recs_def)
qed

lemma date_spec_legacy:
  "e \<in> set (enumerate n ls) \<Longrightarrow> date (spec_legacy e) \<in> createdAt ` set ls"
  by (cases e) (auto simp: spec_legacy_def in_set_enumerate_eq)

lemma conversations_unfold:
  "conversations t ls =
     (case those (map (\<lambda>sid. group_summary t (sid, group_of ls sid))
                    (distinct_sessions usable_sessionId ls)) of
        None \<Rightarrow> None
      | Some result \<Rightarrow>
          Some (js_sort (\<lambda>a b. time_diff t (date b) (date a))
                 (result @ map spec_legacy
                    (filter (\<lambda>e. usable_sessionId (snd e) = None) (enumerate 0 ls)))))"
  by (simp add: conversations_def fold_group_step comp_def legacy_summary_spec
      cong: option.case_cong)

lemma conversations_spec:
  assumes iso: "iso_sortable t ls"
  shows "conversations t ls = Some (spec_grouping usable_sessionId ls)"
proof -
  let ?ks = "distinct_sessions usable_sessionId ls"
  let ?leg = "map spec_legacy (filter (\<lambda>e. usable_sessionId (snd e) = None) (enumerate 0 ls))"
  let ?all = "map (spec_summary usable_sessionId ls) ?ks @ ?leg"
  have th: "those (map (\<lambda>sid. group_summary t (sid, group_of ls sid)) ?ks)
      = Some (map (spec_summary usable_sessionId ls) ?ks)"
    by (rule those_map_Some) (simp add: group_summary_spec [OF iso])
  have dates: "\<forall>c \<in> set ?all. date c \<in> createdAt ` set ls"
    by (auto simp: date_spec_summary date_spec_legacy)
  have "js_sort (\<lambda>a b. time_diff t (date b) (date a)) ?all = sort_desc date ?all"
  proof (rule js_sort_sort_desc, intro ballI)
    fix x y assume "x \<in> set ?all" "y \<in> set ?all"
    with dates show "(time_diff t (date y) (date x) \<le> 0) = (date y \<le> date x)"
      by (intro iso_time_diff [OF iso]) auto
  qed
  then show ?thesis
    by (simp add: conversations_unfold th spec_grouping_def)
qed

lemma group_summary_total:
  assumes sid: "sid \<in> set (distinct_sessions usable_sessionId ls)"
  shows "group_summary t (sid, group_of ls sid) \<noteq> None"
proof -
  from sid have "filter (\<lambda>l. usable_sessionId l = Some sid) ls \<noteq> []"
    by (auto simp: set_distinct_sessions filter_empty_conv)
  then show ?thesis
    by (simp add: group_summary_def group_of_def Let_def js_sort_Nil_iff)
qed

lemma length_filter_enumerate:
  "length (filter (\<lambda>e. P (snd e)) (enumerate n xs)) = length (filter P xs)"
  by (induction xs arbitrary: n) auto

lemma conversations_length:
  "\<exists>cs. conversations t ls = Some cs
     \<and> length cs = card (set (List.map_filter usable_sessionId ls))
                   + length (filter (\<lambda>l. usable_sessionId l = None) ls)"
proof -
  let ?ks = "distinct_sessions usable_sessionId ls"
  have "\<forall>sid \<in> set ?ks. group_summary t (sid, group_of ls sid)
      = Some (the (group_summary t (sid, group_of ls sid)))"
    using group_summary_total by fastforce
  then have th: "those (map (\<lambda>sid. group_summary t (sid, group_of ls sid)) ?ks)
      = Some (map (\<lambda>sid. the (group_summary t (sid, group_of ls sid))) ?ks)"
    by (rule those_map_Some)
  show ?thesis
    using length_filter_enumerate [of "\<lambda>l. usable_sessionId l = None" 0 ls]
    by (simp add: conversations_unfold th length_js_sort length_distinct_sessions)
qed

lemma distinct_ids_set:
  "{s. s \<noteq> [] \<and> Some s \<in> sessionId ` set ls} = set (List.map_filter usable_sessionId ls)"
  by (auto simp: set_map_filter usable_cases image_iff) metis+

lemma legacy_filter_eq:
  "filter (\<lambda>l. sessionId l = None \<or> sessionId l = Some []) ls
     = filter (\<lambda>l. usable_sessionId l = None) ls"
  by (simp add: usable_cases)

text \<open>
  C1 fails as stated on a record whose \<^verbatim>\<open>sessionId\<close> is the empty string: it is not null,
  so the stated algorithm groups it under the key \<open>''''\<close>, while \<^verbatim>\<open>if (log.sessionId)\<close> sends
  it to the legacy rows with the key \<open>legacy-0\<close>.
\<close>

theorem empty_sessionId_is_legacy:
  "sessionId doc_empty_sid \<noteq> None
   \<and> iso_sortable getTime_demo [doc_empty_sid]
   \<and> map_option (map (\<lambda>c. (key c, convSessionId c))) (conversations getTime_demo [doc_empty_sid])
       = Some [(''legacy-0'', None)]
   \<and> map (\<lambda>c. (key c, convSessionId c)) (spec_grouping sessionId [doc_empty_sid])
       = [([], Some [])]"
  by code_simp

text \<open>
  C1, amended: a record counts as having a session only when its \<^verbatim>\<open>sessionId\<close> is a non-empty
  string. For every list of records with sortable timestamps, \<^verbatim>\<open>conversations\<close> returns what
  the algorithm of the specification returns: one summary for each distinct non-empty
  \<^verbatim>\<open>sessionId\<close>, holding all its records sorted ascending by \<^verbatim>\<open>createdAt\<close>, with the title of
  the first, the model of the last, the greatest \<^verbatim>\<open>createdAt\<close> and the number of records; one
  summary with the key \<open>legacy-\<close>index for each record with no or an empty \<^verbatim>\<open>sessionId\<close>;
  grouped then legacy summaries, sorted by the latest timestamp, descending, and stably.
\<close>

theorem conversations_follow_spec:
  "iso_sortable getTime ls \<Longrightarrow>
   conversations getTime ls = Some (spec_grouping usable_sessionId ls)
   \<and> sorted_wrt (\<lambda>a b. date b \<le> date a) (spec_grouping usable_sessionId ls)
   \<and> filter (\<lambda>c. date c = k) (spec_grouping usable_sessionId ls)
       = filter (\<lambda>c. date c = k)
           (map (spec_summary usable_sessionId ls) (distinct_sessions usable_sessionId ls)
            @ map spec_legacy (filter (\<lambda>e. usable_sessionId (snd e) = None) (enumerate 0 ls)))"
  by (simp add: conversations_spec spec_grouping_def sorted_sort_desc sort_desc_stable)

theorem conversations_follow_spec_witness:
  "iso_sortable getTime_demo [doc_A1, doc_A2, legacy_doc]
   \<and> conversations getTime_demo [doc_A1, doc_A2, legacy_doc]
       = Some [\<lparr>key = ''A'', convSessionId = Some ''A'', title = ''hi'',
                 date = ''2024-01-03T00:00:00.000Z'', convModel = ''m2'', msgCount = 2,
                 allLogs = [doc_A1, doc_A2]\<rparr>,
               \<lparr>key = ''legacy-2'', convSessionId = None, title = ''legacy'',
                 date = ''2024-01-01T00:00:00.000Z'', convModel = ''m'', msgCount = 1,
                 allLogs = [legacy_doc]\<rparr>]"
proof -
  have iso: "iso_sortable getTime_demo [doc_A1, doc_A2, legacy_doc]"
    by code_simp
  have "spec_grouping usable_sessionId [doc_A1, doc_A2, legacy_doc]
       = [\<lparr>key = ''A'', convSessionId = Some ''A'', title = ''hi'',
                 date = ''2024-01-03T00:00:00.000Z'', convModel = ''m2'', msgCount = 2,
                 allLogs = [doc_A1, doc_A2]\<rparr>,
               \<lparr>key = ''legacy-2'', convSessionId = None, title = ''legacy'',
                 date = ''2024-01-01T00:00:00.000Z'', convModel = ''m'', msgCount = 1,
                 allLogs = [legacy_doc]\<rparr>]"
    by code_simp
  with iso conversations_follow_spec [OF iso] show ?thesis
    by simp
qed

text \<open>
  C2 fails as stated on two records that share the empty string as \<^verbatim>\<open>sessionId\<close>: one
  distinct non-null \<^verbatim>\<open>sessionId\<close> and no record without one, but two summaries.
\<close>

theorem empty_sessionId_count:
  "map_option length (conversations getTime_demo [doc_empty_sid, doc_empty_sid]) = Some 2
   \<and> card (set (List.map_filter sessionId [doc_empty_sid, doc_empty_sid]))
       + length (filter (\<lambda>l. sessionId l = None) [doc_empty_sid, doc_empty_sid]) = 1"
  by code_simp

text \<open>
  C2, amended: for every list of records (whatever their timestamps), grouping returns, and
  the number of summaries is the number of distinct non-empty \<^verbatim>\<open>sessionId\<close>s plus the number
  of records whose \<^verbatim>\<open>sessionId\<close> is absent or empty.
\<close>

theorem conversations_count:
  "\<exists>cs. conversations getTime ls = Some cs
     \<and> length cs = card {s. s \<noteq> [] \<and> Some s \<in> sessionId ` set ls}
                   + length (filter (\<lambda>l. sessionId l = None \<or> sessionId l = Some []) ls)"
  using conversations_length [of getTime ls]
  by (simp only: distinct_ids_set legacy_filter_eq)

theorem conversations_count_witness:
  "map_option length
     (conversations getTime_demo [doc_A2, legacy_doc, doc_B1, doc_A1, doc_empty_sid]) = Some 4"
proof -
  have "card {s. s \<noteq> [] \<and> Some s \<in> sessionId ` set [doc_A2, legacy_doc, doc_B1, doc_A1, doc_empty_sid]}
      = 2"
    unfolding distinct_ids_set by code_simp
  moreover have "length (filter (\<lambda>l. sessionId l = None \<or> sessionId l = Some [])
      [doc_A2, legacy_doc, doc_B1, doc_A1, doc_empty_sid]) = 2"
    by code_simp
  ultimately show ?thesis
    using conversations_count [of getTime_demo "[doc_A2, legacy_doc, doc_B1, doc_A1, doc_empty_sid]"]
    by auto
qed

section \<open>Deletion coordinator: results\<close>

lemma callDelete_settle_failure:
  "r \<noteq> Response True \<Longrightarrow> callDelete_settle seen sessionIds r s = s\<lparr>deleting := False\<rparr>"
  by (cases r) (auto simp: callDelete_settle_def)

lemma callDelete_failure:
  "outcome \<noteq> Fetched (Response True) \<Longrightarrow> callDelete sessionIds outcome s = s\<lparr>deleting := False\<rparr>"
  by (cases outcome) (auto simp: callDelete_def callDelete_start_def callDelete_settle_failure)

text \<open>
  C6. When the call does not succeed (the stored settings do not parse, the fetch is rejected,
  or the response is not ok), selection mode, the selected keys, the active session, the
  history version and the messages are what they were; the call only leaves the busy flag
  \<^verbatim>\<open>deleting\<close> false. A call starts with the flag false (the buttons are disabled otherwise),
  and then the whole state is the state before the call. The same holds for the second half
  of the call alone, whatever happened to the state while the request was in flight.
\<close>

theorem callDelete_failure_keeps_state:
  "outcome \<noteq> Fetched (Response True) \<Longrightarrow>
   selectionMode (callDelete sessionIds outcome s) = selectionMode s
   \<and> selectedKeys (callDelete sessionIds outcome s) = selectedKeys s
   \<and> activeSessionId (callDelete sessionIds outcome s) = activeSessionId s
   \<and> historyVersion (callDelete sessionIds outcome s) = historyVersion s
   \<and> messages (callDelete sessionIds outcome s) = messages s
   \<and> callDelete sessionIds outcome s = s\<lparr>deleting := False\<rparr>
   \<and> (r \<noteq> Response True \<longrightarrow>
        callDelete_settle seen sessionIds r s' = s'\<lparr>deleting := False\<rparr>)"
  by (simp add: callDelete_failure callDelete_settle_failure)

theorem callDelete_failure_keeps_state_witness:
  "callDelete (Some [''A'']) (Fetched Rejected) app_demo = app_demo
   \<and> callDelete None (Fetched (Response False)) app_demo = app_demo
   \<and> callDelete None SettingsUnreadable app_demo = app_demo"
  using callDelete_failure_keeps_state [of "Fetched Rejected" "Some [''A'']" app_demo]
    callDelete_failure_keeps_state [of "Fetched (Response False)" None app_demo]
    callDelete_failure_keeps_state [of SettingsUnreadable None app_demo]
  by (simp add: app_demo_def)

lemma handleDeleteChats_active:
  "activeSessionId (handleDeleteChats seen target s) =
     (if target = None \<or> (\<exists>ids a. target = Some ids \<and> seen = Some a \<and> a \<noteq> [] \<and> a \<in> set ids)
      then None else activeSessionId s)"
  by (auto simp: handleDeleteChats_def startNewChat_def Let_def split: option.splits)

lemma handleDeleteChats_selection:
  "selectionMode (handleDeleteChats seen target s) = selectionMode s"
  "selectedKeys (handleDeleteChats seen target s) = selectedKeys s"
  "deleting (handleDeleteChats seen target s) = deleting s"
  by (auto simp: handleDeleteChats_def startNewChat_def Let_def split: option.splits)



section \<open>The busy flag\<close>

lemma callDelete_click_inv:
  "busy_inv s \<Longrightarrow> \<not> deleting (ui s) \<Longrightarrow> busy_inv (callDelete_click ids s)"
  by (auto simp: busy_inv_def callDelete_click_def callDelete_start_def callDelete_def)

lemma step_busy_inv: "busy_inv s \<Longrightarrow> busy_inv (step e s)"
proof (cases e)
  case (DeleteSettles r)
  assume "busy_inv s"
  then show ?thesis
    by (cases "inflight s")
      (auto simp: DeleteSettles busy_inv_def callDelete_settle_def Let_def split: prod.splits)
next
  case (ClickRow c)
  assume "busy_inv s"
  then show ?thesis
    by (auto simp: ClickRow busy_inv_def loadChat_def)
next
  case (ClickRowTrash c)
  assume "busy_inv s"
  then show ?thesis
    by (auto simp: ClickRowTrash callDelete_click_inv split: option.splits)
next
  case ClickDeleteSelected
  assume "busy_inv s"
  then show ?thesis
    by (auto simp: ClickDeleteSelected callDelete_click_inv)
next
  case ClickDeleteAll
  assume "busy_inv s"
  then show ?thesis
    by (auto simp: ClickDeleteAll callDelete_click_inv)
qed (auto simp: busy_inv_def startNewChat_def)

lemma fold_step_busy_inv: "busy_inv s \<Longrightarrow> busy_inv (fold step evs s)"
  by (induction evs arbitrary: s) (auto simp: step_busy_inv)

lemma delete_click_ignored:
  "deleting (ui s) \<Longrightarrow> is_delete_click e \<Longrightarrow> step e s = s"
  by (cases e) (auto simp: is_delete_click_def split: option.splits)

text \<open>
  C10. From any state with no deletion pending and the busy flag \<^verbatim>\<open>deleting\<close> false, after any
  sequence of events at most one deletion request is in flight; and while one is in flight
  the flag is set and every click on a delete button (a row's trash icon, "Delete selected",
  "Delete all") changes nothing: no second request is sent.
\<close>

theorem one_deletion_in_flight:
  "inflight s0 = [] \<Longrightarrow> \<not> deleting (ui s0) \<Longrightarrow>
   length (inflight (fold step evs s0)) \<le> 1
   \<and> (inflight (fold step evs s0) \<noteq> [] \<longrightarrow>
        deleting (ui (fold step evs s0))
        \<and> (\<forall>e. is_delete_click e \<longrightarrow> step e (fold step evs s0) = fold step evs s0))"
proof -
  assume "inflight s0 = []" "\<not> deleting (ui s0)"
  then have "busy_inv s0" by (simp add: busy_inv_def)
  then have "busy_inv (fold step evs s0)" by (rule fold_step_busy_inv)
  then show ?thesis
    by (auto simp: busy_inv_def delete_click_ignored)
qed

theorem one_deletion_in_flight_witness:
  "inflight system_demo = [] \<and> \<not> deleting (ui system_demo)
   \<and> inflight (fold step [ClickDeleteAll] system_demo) = [(None, Some ''A'')]
   \<and> inflight (fold step [ClickDeleteAll, ClickDeleteSelected, ClickDeleteAll] system_demo)
       = [(None, Some ''A'')]
   \<and> inflight (fold step [ClickDeleteAll, DeleteSettles Rejected, ClickDeleteSelected] system_demo)
       = [(Some [''A'', ''B''], Some ''A'')]"
  using one_deletion_in_flight [of system_demo "[ClickDeleteAll]"]
    one_deletion_in_flight [of system_demo "[ClickDeleteAll, ClickDeleteSelected, ClickDeleteAll]"]
  by (simp add: system_demo_def app_demo_def callDelete_click_def callDelete_start_def
      callDelete_settle_def)

section \<open>Search view: results\<close>

lemma handleSearch_restarts:
  "js_trim v2 \<noteq> [] \<Longrightarrow>
   debounceRef (handleSearch v2 (handleSearch v1 s)) = Some (js_trim v2)
   \<and> requests (handleSearch v2 (handleSearch v1 s)) = requests s"
  by (simp add: handleSearch_def Let_def)

lemma handleSearch_blank_cancels:
  "js_trim v2 = [] \<Longrightarrow> debounceRef (handleSearch v2 s) = None"
  by (simp add: handleSearch_def Let_def)

text \<open>
  C7. A keystroke does cancel the pending timer and start a new one (\<open>handleSearch_restarts\<close>),
  but no response is ever discarded: \<^verbatim>\<open>runSearch\<close> has no cancellation and no request token.
  After \<open>overlapping_searches\<close> the query is \<open>ab\<close>, no request is pending, the answer to the
  latest request had been applied, and the rows are those of the superseded request for
  \<open>a\<close>, written over it.
\<close>

theorem stale_search_response_applied:
  "searchResults (fold search_step (take 5 overlapping_searches) search_init) = [doc_abc]
   \<and> query (fold search_step overlapping_searches search_init) = ''ab''
   \<and> requests (fold search_step overlapping_searches search_init) = []
   \<and> issued (fold search_step overlapping_searches search_init) = 2
   \<and> searchResults (fold search_step overlapping_searches search_init) = [doc_abc, doc_alpha]"
  by (simp add: overlapping_searches_def search_init_def handleSearch_def runSearch_def
      search_settle_def js_trim_def is_space_def Let_def)

section \<open>Log fetch: results\<close>





lemma set_group_ids: "set (group_ids docs) = sessionId ` set docs"
  by (simp add: group_ids_def)



lemma recentSessions_subset:
  "fst ` set (recentSessions docs) \<subseteq> sessionId ` set docs"
proof -
  have "set (recentSessions docs) \<subseteq> set (map (\<lambda>g. (g, latestAt docs g)) (group_ids docs))"
    unfolding recentSessions_def using set_take_subset [of 50] by (metis set_sort_desc)
  then show ?thesis
    by (auto simp: set_group_ids)
qed














section \<open>The identifiers the page stores\<close>

lemma set_js_insert: "set (js_insert cmp x ys) = insert x (set ys)"
  by (induction ys) auto

lemma set_js_sort: "set (js_sort cmp xs) = set xs"
  by (induction xs) (auto simp: js_sort_def set_js_insert)

lemma group_summary_id:
  assumes "sid \<in> set (distinct_sessions usable_sessionId ls)"
  shows "\<exists>c. group_summary t (sid, group_of ls sid) = Some c \<and> convSessionId c = Some sid"
proof -
  from assms have "filter (\<lambda>l. usable_sessionId l = Some sid) ls \<noteq> []"
    by (auto simp: set_distinct_sessions filter_empty_conv)
  then show ?thesis
    by (simp add: group_summary_def group_of_def Let_def js_sort_Nil_iff)
qed

text \<open>
  Every row of the sidebar is loaded under a non-empty identifier: \<^verbatim>\<open>conv.sessionId ?? conv.key\<close>
  is a non-empty \<^verbatim>\<open>sessionId\<close> or a key \<open>legacy-\<close>index.
\<close>

lemma row_id_nonempty:
  assumes cs: "conversations t ls = Some cs" and c: "c \<in> set cs"
  shows "(case convSessionId c of Some i \<Rightarrow> i | None \<Rightarrow> key c) \<noteq> []"
proof -
  let ?ks = "distinct_sessions usable_sessionId ls"
  let ?leg = "map spec_legacy (filter (\<lambda>e. usable_sessionId (snd e) = None) (enumerate 0 ls))"
  have "\<forall>sid \<in> set ?ks. group_summary t (sid, group_of ls sid)
      = Some (the (group_summary t (sid, group_of ls sid)))"
    using group_summary_total by fastforce
  then have th: "those (map (\<lambda>sid. group_summary t (sid, group_of ls sid)) ?ks)
      = Some (map (\<lambda>sid. the (group_summary t (sid, group_of ls sid))) ?ks)"
    by (rule those_map_Some)
  from cs have "cs = js_sort (\<lambda>a b. time_diff t (date b) (date a))
      (map (\<lambda>sid. the (group_summary t (sid, group_of ls sid))) ?ks @ ?leg)"
    by (simp add: conversations_unfold th)
  with c have "c \<in> (\<lambda>sid. the (group_summary t (sid, group_of ls sid))) ` set ?ks \<or> c \<in> set ?leg"
    by (auto simp: set_js_sort)
  then show ?thesis
  proof
    assume "c \<in> (\<lambda>sid. the (group_summary t (sid, group_of ls sid))) ` set ?ks"
    then obtain sid where sid: "sid \<in> set ?ks" and ceq: "c = the (group_summary t (sid, group_of ls sid))"
      by blast
    from group_summary_id [OF sid, of t] ceq have "convSessionId c = Some sid"
      by auto
    moreover from sid have "sid \<noteq> []"
      by (auto simp: set_distinct_sessions usable_cases)
    ultimately show ?thesis by simp
  next
    assume "c \<in> set ?leg"
    then show ?thesis
      by (auto simp: spec_legacy_def)
  qed
qed

text \<open>
  The events of the sidebar keep the active session \<^verbatim>\<open>null\<close> or non-empty, as long as the
  rows clicked are rows of the grouping. (The other writer, \<^verbatim>\<open>sendMessage\<close>, stores a fresh
  identifier only when \<^verbatim>\<open>!currentSessionId\<close>.)
\<close>

lemma step_keeps_active_id:
  assumes "activeSessionId (ui s) \<noteq> Some []"
    and "\<And>c. e = ClickRow c \<Longrightarrow> (case convSessionId c of Some i \<Rightarrow> i | None \<Rightarrow> key c) \<noteq> []"
  shows "activeSessionId (ui (step e s)) \<noteq> Some []"
proof (cases e)
  case (ClickRow c)
  with assms show ?thesis
    by (auto simp: loadChat_def)
next
  case (ClickRowTrash c)
  with assms(1) show ?thesis
    by (auto simp: callDelete_click_def callDelete_start_def callDelete_def split: option.splits)
next
  case ClickDeleteSelected
  with assms(1) show ?thesis
    by (auto simp: callDelete_click_def callDelete_start_def callDelete_def)
next
  case ClickDeleteAll
  with assms(1) show ?thesis
    by (auto simp: callDelete_click_def callDelete_start_def callDelete_def)
next
  case (DeleteSettles r)
  with assms(1) show ?thesis
    by (cases "inflight s"; cases r)
      (auto simp: callDelete_settle_def handleDeleteChats_active split: if_splits bool.splits)
qed (use assms(1) in \<open>auto simp: startNewChat_def\<close>)

end
